theory Spec2Isabelle
  imports Complex_Main "HOL-Library.Word" "HOL-Library.Multiset"
begin

section \<open>Hexagonal coordinates (\<open>src/hexagons.mjs\<close>)\<close>

text \<open>
  An axial coordinate is the JavaScript array \<open>[q, r]\<close> of two integers.  JavaScript
  numbers that hold integers are modelled as \<open>int\<close>: the arithmetic of doubles is exact
  on integers below \<open>2^53\<close>, and the limit of the call stack is not modelled.
\<close>

type_synonym axial = "int \<times> int"

definition directions :: "axial list" where
  "directions = [(0, 1), (0, -1), (-1, 1), (1, -1), (1, 0), (-1, 0)]"

text \<open>
  \<open>x >> 1\<close>: the operand is first converted to a signed 32-bit integer, then shifted
  arithmetically.
\<close>

definition shr1 :: "int \<Rightarrow> int" where
  "shr1 x = sint (signed_drop_bit 1 (word_of_int x :: 32 word))"

fun odd_q_to_axial :: "int \<times> int \<Rightarrow> axial" where
  "odd_q_to_axial (x, y) = (x, y - shr1 x)"

fun axial_to_odd_q :: "axial \<Rightarrow> int \<times> int" where
  "axial_to_odd_q (x, y) = (x, y + shr1 x)"

fun anticlockwise :: "axial \<Rightarrow> axial" where
  "anticlockwise (q, r) = (let s = - q - r in (- s, - q))"

text \<open>\<open>range(n)\<close> of \<open>util.mjs\<close>: the integers of \<open>[0, n)\<close>.\<close>

definition range_js :: "nat \<Rightarrow> nat list" where
  "range_js n = [0..<n]"

text \<open>
  \<open>range(t).reduce(anticlockwise, qr)\<close>: the callback receives the accumulator first and
  ignores the element.
\<close>

definition rotation :: "axial \<Rightarrow> nat \<Rightarrow> axial" where
  "rotation qr t = fold (\<lambda>_ acc. anticlockwise acc) (range_js t) qr"

fun distance :: "axial \<Rightarrow> axial \<Rightarrow> int" where
  "distance (Aq, Ar) (Bq, Br) =
     (let As = - Aq - Ar; Bs = - Bq - Br
      in max (max \<bar>Aq - Bq\<bar> \<bar>Ar - Br\<bar>) \<bar>As - Bs\<bar>)"

declare distance.simps [simp del]

definition area :: "int \<Rightarrow> int" where
  "area r = 3 * r ^ 2 + 3 * r + 1"

section \<open>Selection helpers (\<open>util.mjs\<close>)\<close>

text \<open>
  \<open>argmax\<close> reduces from \<open>[undefined, -Infinity]\<close>; \<open>None\<close> stands for \<open>undefined\<close> in
  the index and for \<open>-Infinity\<close> in the value.  The test \<open>x > max[1]\<close> is strict, so the
  first maximal element wins.
\<close>

fun greater_than :: "int \<Rightarrow> int option \<Rightarrow> bool" where
  "greater_than x None = True"
| "greater_than x (Some y) = (x > y)"

fun argmax_from :: "nat \<Rightarrow> nat option \<times> int option \<Rightarrow> int list \<Rightarrow> nat option \<times> int option" where
  "argmax_from i m [] = m"
| "argmax_from i m (x # xs) =
     argmax_from (Suc i) (if greater_than x (snd m) then (Some i, Some x) else m) xs"

definition argmax :: "int list \<Rightarrow> nat option \<times> int option" where
  "argmax array = argmax_from 0 (None, None) array"

text \<open>\<open>array[index]\<close> with \<open>index\<close> undefined is \<open>undefined\<close>.\<close>

definition max_by :: "'a list \<Rightarrow> ('a \<Rightarrow> int) \<Rightarrow> 'a option" where
  "max_by array key =
     (case fst (argmax (map key array)) of
        None \<Rightarrow> None
      | Some index \<Rightarrow> Some (array ! index))"

definition min_by :: "'a list \<Rightarrow> ('a \<Rightarrow> int) \<Rightarrow> 'a option" where
  "min_by array key = max_by array (\<lambda>x. - key x)"

section \<open>The boundary folder \<open>wrap\<close>\<close>

datatype error = TypeError

definition centers :: "int \<Rightarrow> axial list" where
  "centers radius = map (\<lambda>t. rotation (radius, radius + 1) t) (range_js 6)"

text \<open>
  \<open>wrap\<close> recurses until the coordinate is inside the region, so it is a partial function:
  \<open>None\<close> means that the call does not return.  Destructuring an \<open>undefined\<close> result of
  \<open>min_by\<close> would throw a \<open>TypeError\<close>.
\<close>

partial_function (option) wrap :: "int \<Rightarrow> axial \<Rightarrow> (error + axial) option" where
  "wrap radius c =
     (if distance c (0, 0) \<le> radius then Some (Inr c)
      else (case min_by (centers radius) (distance c) of
              None \<Rightarrow> Some (Inl TypeError)
            | Some m \<Rightarrow> wrap radius (fst c - fst m, snd c - snd m)))"

declare wrap.simps [code]

section \<open>Random helpers (\<open>util.mjs\<close>)\<close>

text \<open>
  \<open>Math.random()\<close> is global state.  It is modelled by a stream \<open>rnd\<close> of the numbers it
  returns, \<open>rnd k\<close> being the result of call number \<open>k\<close>, and by the count of the calls
  made so far.  The contract of \<open>Math.random\<close> is \<open>0 \<le> rnd k < 1\<close>.  Numbers are exact
  rationals here.
\<close>

definition lerp :: "rat \<Rightarrow> rat \<Rightarrow> rat \<Rightarrow> rat" where
  "lerp t a b = a + (b - a) * t"

definition random_js :: "rat \<Rightarrow> rat \<Rightarrow> rat \<Rightarrow> rat" where
  "random_js t a b = lerp t a b"

text \<open>\<open>x | 0\<close>: truncate towards zero, then wrap to a signed 32-bit integer.\<close>

definition to_int32 :: "rat \<Rightarrow> int" where
  "to_int32 x = sint (word_of_int (if x < 0 then \<lceil>x\<rceil> else \<lfloor>x\<rfloor>) :: 32 word)"

definition randint :: "rat \<Rightarrow> rat \<Rightarrow> rat \<Rightarrow> int" where
  "randint t a b = to_int32 (random_js t a b)"

text \<open>
  \<open>[array_[i], array_[j]] = [array_[j], array_[i]]\<close>.  Under the contract of
  \<open>Math.random\<close> both indices are inside the array.
\<close>

definition swap :: "nat \<Rightarrow> nat \<Rightarrow> 'a list \<Rightarrow> 'a list" where
  "swap i j xs = (xs[i := xs ! j])[j := xs ! i]"

fun shuffled_loop :: "(nat \<Rightarrow> rat) \<Rightarrow> nat \<Rightarrow> nat list \<Rightarrow> 'a list \<Rightarrow> 'a list" where
  "shuffled_loop rnd k [] array = array"
| "shuffled_loop rnd k (i # is) array =
     (let j = randint (rnd k) (of_nat i) (of_nat (length array))
      in shuffled_loop rnd (Suc k) is (swap i (nat j) array))"

text \<open>\<open>shuffled\<close> makes one call of \<open>Math.random\<close> for each index but the last.\<close>

definition shuffled :: "(nat \<Rightarrow> rat) \<Rightarrow> nat \<Rightarrow> 'a list \<Rightarrow> 'a list" where
  "shuffled rnd k array = shuffled_loop rnd k (range_js (length array - 1)) array"

fun add :: "axial \<Rightarrow> axial \<Rightarrow> axial" where
  "add (a0, a1) (b0, b1) = (a0 + b0, a1 + b1)"

section \<open>The occupancy map (\<open>defaultdict\<close> of \<open>util.mjs\<close>)\<close>

text \<open>
  \<open>defaultdict(factory)\<close> is a proxy whose \<open>get\<close> handler stores \<open>factory(name)\<close> under
  a missing key before returning it: a read of an absent key changes the dictionary.
  There is no \<open>set\<close> handler, so a write is a plain assignment.  The occupancy map is
  \<open>defaultdict((_) => defaultdict((_) => false))\<close>, indexed as \<open>cells[r][q]\<close>.
\<close>

type_synonym row = "int \<rightharpoonup> bool"
type_synonym cells = "int \<rightharpoonup> row"

definition defaultdict_get :: "'v \<Rightarrow> ('k \<rightharpoonup> 'v) \<Rightarrow> 'k \<Rightarrow> 'v \<times> ('k \<rightharpoonup> 'v)" where
  "defaultdict_get factory target name =
     (case target name of
        Some v \<Rightarrow> (v, target)
      | None \<Rightarrow> (factory, target(name \<mapsto> factory)))"

text \<open>
  The read \<open>cells[r][q]\<close>.  The row returned by the outer \<open>get\<close> is the object stored
  in the outer dictionary, so what the inner \<open>get\<close> stores is seen through \<open>cells\<close>.
\<close>

definition cells_read :: "cells \<Rightarrow> int \<Rightarrow> int \<Rightarrow> bool \<times> cells" where
  "cells_read cells r q =
     (let (row, cells1) = defaultdict_get Map.empty cells r;
          (v, row1) = defaultdict_get False row q
      in (v, cells1(r \<mapsto> row1)))"

text \<open>The write \<open>cells[r][q] = true\<close>: an outer \<open>get\<close>, then an assignment in the row.\<close>

definition cells_write :: "cells \<Rightarrow> int \<Rightarrow> int \<Rightarrow> cells" where
  "cells_write cells r q =
     (let (row, cells1) = defaultdict_get Map.empty cells r
      in cells1(r \<mapsto> row(q \<mapsto> True)))"

text \<open>Observers used in the statements, not part of the program.\<close>

definition lookup :: "cells \<Rightarrow> axial \<Rightarrow> bool option" where
  "lookup cells c = (case cells (snd c) of None \<Rightarrow> None | Some row \<Rightarrow> row (fst c))"

definition is_open :: "cells \<Rightarrow> axial \<Rightarrow> bool" where
  "is_open cells c = (lookup cells c = Some True)"

section \<open>The random-walk generator (\<open>generate_random_walk\<close>)\<close>

text \<open>
  The state of the suspended generator: the current cell \<open>at\<close> (field \<open>at_cell\<close>), the array \<open>stack\<close>
  (\<open>push\<close> and \<open>pop\<close> work at its end) and the number of calls of \<open>Math.random\<close> made so
  far.  The generator is suspended before its first statement or at its \<open>yield\<close>; in
  both cases it resumes at the test of the \<open>while\<close> loop.
\<close>

record gen =
  at_cell :: axial
  stack :: "axial list"
  draws :: nat

definition start :: "axial \<Rightarrow> gen" where
  "start a = \<lparr>at_cell = a, stack = [a], draws = 0\<rparr>"

text \<open>
  The \<open>for\<close> loop over the shuffled directions.  The result is the first wrapped
  neighbour whose entry is \<open>false\<close>, if there is one, and the occupancy map after the
  reads.
\<close>

fun scan :: "int \<Rightarrow> cells \<Rightarrow> axial \<Rightarrow> axial list \<Rightarrow> (error + axial option \<times> cells) option" where
  "scan radius cells a [] = Some (Inr (None, cells))"
| "scan radius cells a (direction # ds) =
     (case wrap radius (add a direction) of
        None \<Rightarrow> None
      | Some (Inl e) \<Rightarrow> Some (Inl e)
      | Some (Inr c) \<Rightarrow>
          (let (v, cells1) = cells_read cells (snd c) (fst c)
           in if v = False then Some (Inr (Some c, cells1))
              else scan radius cells1 a ds))"

text \<open>
  One pass of the body of the \<open>while\<close> loop: either a cell is pushed, becomes current
  and is yielded, or \<open>at = stack.pop()\<close>.
\<close>

definition iteration ::
  "int \<Rightarrow> (nat \<Rightarrow> rat) \<Rightarrow> gen \<Rightarrow> cells \<Rightarrow> (error + axial option \<times> gen \<times> cells) option" where
  "iteration radius rnd g cells =
     (case scan radius cells (at_cell g) (shuffled rnd (draws g) directions) of
        None \<Rightarrow> None
      | Some (Inl e) \<Rightarrow> Some (Inl e)
      | Some (Inr (Some c, cells1)) \<Rightarrow>
          Some (Inr (Some c, g\<lparr>at_cell := c, stack := stack g @ [c], draws := draws g + 5\<rparr>, cells1))
      | Some (Inr (None, cells1)) \<Rightarrow>
          Some (Inr (None, g\<lparr>at_cell := last (stack g), stack := butlast (stack g),
                              draws := draws g + 5\<rparr>, cells1)))"

text \<open>
  One \<open>next()\<close> of the generator: the \<open>while\<close> loop runs until a cell is yielded
  (\<open>Some c\<close>) or the stack is empty (\<open>None\<close>: the sequence has ended).
\<close>

function pull ::
  "int \<Rightarrow> (nat \<Rightarrow> rat) \<Rightarrow> gen \<Rightarrow> cells \<Rightarrow> (error + axial option \<times> gen \<times> cells) option" where
  "pull radius rnd g cells =
     (if length (stack g) > 0 then
        (case iteration radius rnd g cells of
           None \<Rightarrow> None
         | Some (Inl e) \<Rightarrow> Some (Inl e)
         | Some (Inr (Some c, g1, cells1)) \<Rightarrow> Some (Inr (Some c, g1, cells1))
         | Some (Inr (None, g1, cells1)) \<Rightarrow> pull radius rnd g1 cells1)
      else Some (Inr (None, g, cells)))"
  by pat_completeness auto

lemma iteration_pops:
  assumes "iteration radius rnd g cells = Some (Inr (None, g1, cells1))"
  shows "stack g1 = butlast (stack g) \<and> at_cell g1 = last (stack g) \<and> draws g1 = draws g + 5"
  using assms
  by (auto simp: iteration_def split: option.splits sum.splits prod.splits)

termination pull
  apply (relation "measure (\<lambda>(radius, rnd, g, cells). length (stack g))")
   apply simp
  apply (auto dest!: iteration_pops)
  done


section \<open>World assembly (\<open>generateWorld\<close> of \<open>app.mjs\<close>)\<close>

text \<open>
  \<open>take(iterator, n)\<close> is \<open>take_while(iterator, (_) => n-- > 0)\<close>, and \<open>take_while\<close>
  first pulls a value and then asks the predicate, which tests the counter and
  decrements it.  The loop below is \<open>for (const [q, r] of take(walk, steps))
  cells[r][q] = true\<close>: one round pulls a cell from the generator; when the generator
  has ended, the loop ends; when the counter was positive, the cell is marked and the
  loop goes on; otherwise \<open>take_while\<close> breaks and the pulled cell is dropped.
\<close>

function take_loop ::
  "int \<Rightarrow> (nat \<Rightarrow> rat) \<Rightarrow> rat \<Rightarrow> gen \<Rightarrow> cells \<Rightarrow> (error + cells) option" where
  "take_loop radius rnd n g cells =
     (case pull radius rnd g cells of
        None \<Rightarrow> None
      | Some (Inl e) \<Rightarrow> Some (Inl e)
      | Some (Inr (None, g1, cells1)) \<Rightarrow> Some (Inr cells1)
      | Some (Inr (Some c, g1, cells1)) \<Rightarrow>
          (if n > 0 then take_loop radius rnd (n - 1) g1 (cells_write cells1 (snd c) (fst c))
           else Some (Inr cells1)))"
  by pat_completeness auto

termination take_loop
  apply (relation "measure (\<lambda>(radius, rnd, n, g, cells). nat \<lceil>n\<rceil>)")
   apply simp
  apply simp
  done

text \<open>
  \<open>steps = 0.4 * area(radius)\<close>; the walk starts at the origin on an empty map.  The
  second loop of \<open>generateWorld\<close> only computes a local constant and has no effect.
\<close>

definition steps :: "int \<Rightarrow> rat" where
  "steps radius = 0.4 * of_int (area radius)"

definition generateWorld :: "int \<Rightarrow> (nat \<Rightarrow> rat) \<Rightarrow> (error + cells) option" where
  "generateWorld radius rnd = take_loop radius rnd (steps radius) (start (0, 0)) Map.empty"

text \<open>
  Reachability from the seed: a path starts at the seed and goes on, one wrapped
  direction step at a time, through cells that are marked open.
\<close>

inductive reachable :: "int \<Rightarrow> cells \<Rightarrow> axial \<Rightarrow> axial \<Rightarrow> bool"
  for radius :: int and cells :: cells and seed :: axial where
  seed: "reachable radius cells seed seed"
| step: "reachable radius cells seed a \<Longrightarrow> d \<in> set directions \<Longrightarrow>
         wrap radius (add a d) = Some (Inr b) \<Longrightarrow> is_open cells b \<Longrightarrow>
         reachable radius cells seed b"


text \<open>
  \<open>only_defaults_added cells cells1\<close>: every entry of \<open>cells1\<close> is the entry of \<open>cells\<close>,
  or it is a \<open>false\<close> stored under a key that \<open>cells\<close> does not have.
\<close>

definition only_defaults_added :: "cells \<Rightarrow> cells \<Rightarrow> bool" where
  "only_defaults_added cells cells1 =
     (\<forall>c. lookup cells1 c = lookup cells c \<or> (lookup cells c = None \<and> lookup cells1 c = Some False))"


section \<open>Concrete inputs used in the examples\<close>

text \<open>
  A random source that always returns 0: every \<open>randint(i, n)\<close> is \<open>i\<close>, so the shuffle
  leaves the directions in their order.
\<close>

definition zero_random :: "nat \<Rightarrow> rat" where
  "zero_random k = 0"

text \<open>
  An occupancy map for radius 2 in which the neighbours of the origin and of \<open>(1, 0)\<close> are
  open, except \<open>(1, 0)\<close> and \<open>(-1, 0)\<close>; rows are keyed by \<open>r\<close>, entries by \<open>q\<close>.  The
  second map is the first after the walk has emitted \<open>(1, 0)\<close> and the consumer has
  marked it.
\<close>

definition enclosed_cells :: cells where
  "enclosed_cells =
     [1 \<mapsto> [0 \<mapsto> True, -1 \<mapsto> True, 1 \<mapsto> True],
      -1 \<mapsto> [0 \<mapsto> True, 1 \<mapsto> True, 2 \<mapsto> True],
      0 \<mapsto> [2 \<mapsto> True, 0 \<mapsto> True]]"

definition enclosed_cells_marked :: cells where
  "enclosed_cells_marked =
     [1 \<mapsto> [0 \<mapsto> True, -1 \<mapsto> True, 1 \<mapsto> True],
      -1 \<mapsto> [0 \<mapsto> True, 1 \<mapsto> True, 2 \<mapsto> True],
      0 \<mapsto> [2 \<mapsto> True, 0 \<mapsto> True, 1 \<mapsto> True]]"

section \<open>Selection picks a first minimal element\<close>

lemma centers_eq:
  "centers R = [(R, R + 1), (2 * R + 1, - R), (R + 1, - 2 * R - 1),
                (- R, - R - 1), (- 2 * R - 1, R), (- R - 1, 2 * R + 1)]"
  by (simp add: centers_def range_js_def rotation_def upt_conv_Cons)

lemma nth_Cons_shift: "Suc i \<le> j \<Longrightarrow> (k # ks) ! (j - i) = ks ! (j - Suc i)"
  by (simp add: Suc_diff_le)

lemma argmax_from_Some:
  "\<exists>j' v'. argmax_from i (Some j, Some v) ks = (Some j', Some v') \<and>
      (\<forall>k\<in>set ks. k \<le> v') \<and> v \<le> v' \<and>
      ((j' = j \<and> v' = v) \<or> (i \<le> j' \<and> j' < i + length ks \<and> ks ! (j' - i) = v'))"
proof (induction ks arbitrary: i j v)
  case Nil
  then show ?case by simp
next
  case (Cons k ks)
  show ?case
  proof (cases "k > v")
    case True
    from Cons.IH[of "Suc i" i k] obtain j' v' where
      h: "argmax_from (Suc i) (Some i, Some k) ks = (Some j', Some v')"
         "\<forall>x\<in>set ks. x \<le> v'" "k \<le> v'"
         "(j' = i \<and> v' = k) \<or> (Suc i \<le> j' \<and> j' < Suc i + length ks \<and> ks ! (j' - Suc i) = v')"
      by blast
    from h(4) have "i \<le> j' \<and> j' < i + length (k # ks) \<and> (k # ks) ! (j' - i) = v'"
      by (auto simp: nth_Cons_shift)
    with h True show ?thesis by auto
  next
    case False
    from Cons.IH[of "Suc i" j v] obtain j' v' where
      h: "argmax_from (Suc i) (Some j, Some v) ks = (Some j', Some v')"
         "\<forall>x\<in>set ks. x \<le> v'" "v \<le> v'"
         "(j' = j \<and> v' = v) \<or> (Suc i \<le> j' \<and> j' < Suc i + length ks \<and> ks ! (j' - Suc i) = v')"
      by blast
    from h(4) have "(j' = j \<and> v' = v) \<or> (i \<le> j' \<and> j' < i + length (k # ks) \<and> (k # ks) ! (j' - i) = v')"
      by (auto simp: nth_Cons_shift)
    with h False show ?thesis by auto
  qed
qed

lemma max_by_nonempty:
  assumes "xs \<noteq> []"
  shows "\<exists>m. max_by xs key = Some m \<and> m \<in> set xs \<and> (\<forall>x\<in>set xs. key x \<le> key m)"
proof -
  from assms obtain a as where xs: "xs = a # as" by (cases xs) auto
  from argmax_from_Some[of "Suc 0" 0 "key a" "map key as"] obtain j' v' where
    h: "argmax_from (Suc 0) (Some 0, Some (key a)) (map key as) = (Some j', Some v')"
       "\<forall>k\<in>set (map key as). k \<le> v'" "key a \<le> v'"
       "(j' = 0 \<and> v' = key a) \<or> (Suc 0 \<le> j' \<and> j' < Suc 0 + length (map key as) \<and> map key as ! (j' - Suc 0) = v')"
    by blast
  have am: "fst (argmax (map key xs)) = Some j'"
    using h(1) by (simp add: argmax_def xs)
  from h(4) have j: "j' < length xs \<and> key (xs ! j') = v'"
    by (auto simp: xs nth_Cons split: nat.splits)
  then have "xs ! j' \<in> set xs" by simp
  moreover have "\<forall>x\<in>set xs. key x \<le> key (xs ! j')"
    using h(2,3) j by (auto simp: xs)
  ultimately show ?thesis
    using am by (simp add: max_by_def)
qed

lemma min_by_nonempty:
  assumes "xs \<noteq> []"
  shows "\<exists>m. min_by xs key = Some m \<and> m \<in> set xs \<and> (\<forall>x\<in>set xs. key m \<le> key x)"
  using max_by_nonempty[OF assms, of "\<lambda>x. - key x"] by (auto simp: min_by_def)

lemma distance_sub: "distance (fst c - fst m, snd c - snd m) (0, 0) = distance c m"
  by (cases c; cases m) (simp add: distance.simps Let_def algebra_simps)

lemma distance_nonneg: "0 \<le> distance a b"
  by (cases a; cases b) (simp add: distance.simps Let_def)

lemma closer0:
  fixes q r R :: int
  assumes "0 \<le> R" "R < distance (q, r) (0, 0)" "0 \<le> q" "0 < r"
  shows "distance (q, r) (R, R + 1) < distance (q, r) (0, 0)"
  using assms by (simp add: distance.simps Let_def) linarith

lemma closer1:
  fixes q r R :: int
  assumes "0 \<le> R" "R < distance (q, r) (0, 0)" "r \<le> 0" "0 < q + r"
  shows "distance (q, r) (2 * R + 1, - R) < distance (q, r) (0, 0)"
  using assms by (simp add: distance.simps Let_def) linarith

lemma closer2:
  fixes q r R :: int
  assumes "0 \<le> R" "R < distance (q, r) (0, 0)" "q + r \<le> 0" "0 < q"
  shows "distance (q, r) (R + 1, - 2 * R - 1) < distance (q, r) (0, 0)"
  using assms by (simp add: distance.simps Let_def) linarith

lemma closer3:
  fixes q r R :: int
  assumes "0 \<le> R" "R < distance (q, r) (0, 0)" "q \<le> 0" "r < 0"
  shows "distance (q, r) (- R, - R - 1) < distance (q, r) (0, 0)"
  using assms by (simp add: distance.simps Let_def) linarith

lemma closer4:
  fixes q r R :: int
  assumes "0 \<le> R" "R < distance (q, r) (0, 0)" "0 \<le> r" "q + r < 0"
  shows "distance (q, r) (- 2 * R - 1, R) < distance (q, r) (0, 0)"
  using assms by (simp add: distance.simps Let_def) linarith

lemma closer5:
  fixes q r R :: int
  assumes "0 \<le> R" "R < distance (q, r) (0, 0)" "0 \<le> q + r" "q < 0"
  shows "distance (q, r) (- R - 1, 2 * R + 1) < distance (q, r) (0, 0)"
  using assms by (simp add: distance.simps Let_def) linarith

lemma closer_center:
  assumes "0 \<le> R" "R < distance c (0, 0)"
  shows "\<exists>m\<in>set (centers R). distance c m < distance c (0, 0)"
proof -
  obtain q r where c: "c = (q, r)" by (cases c)
  have nz: "q \<noteq> 0 \<or> r \<noteq> 0" using assms unfolding c by (auto simp: distance.simps Let_def)
  then consider "0 \<le> q \<and> 0 < r" | "r \<le> 0 \<and> 0 < q + r" | "q + r \<le> 0 \<and> 0 < q"
    | "q \<le> 0 \<and> r < 0" | "0 \<le> r \<and> q + r < 0" | "0 \<le> q + r \<and> q < 0"
    by linarith
  then show ?thesis
  proof cases
    case 1 with closer0[of R q r] assms show ?thesis unfolding c centers_eq by simp
  next
    case 2 with closer1[of R q r] assms show ?thesis unfolding c centers_eq by simp
  next
    case 3 with closer2[of R q r] assms show ?thesis unfolding c centers_eq by simp
  next
    case 4 with closer3[of R q r] assms show ?thesis unfolding c centers_eq by simp
  next
    case 5 with closer4[of R q r] assms show ?thesis unfolding c centers_eq by simp
  next
    case 6 with closer5[of R q r] assms show ?thesis unfolding c centers_eq by simp
  qed
qed

section \<open>Properties of \<open>wrap\<close>\<close>

lemma wrap_inside: "distance c (0, 0) \<le> radius \<Longrightarrow> wrap radius c = Some (Inr c)"
  by (subst wrap.simps) simp

lemma nearest_center_decreases:
  assumes "0 \<le> radius" "radius < distance c (0, 0)"
  shows "\<exists>m. min_by (centers radius) (distance c) = Some m \<and> m \<in> set (centers radius) \<and>
             distance (fst c - fst m, snd c - snd m) (0, 0) < distance c (0, 0)"
proof -
  have "centers radius \<noteq> []" by (simp add: centers_eq)
  from min_by_nonempty[OF this, of "distance c"] obtain m where
    m: "min_by (centers radius) (distance c) = Some m" "m \<in> set (centers radius)"
       "\<forall>x\<in>set (centers radius). distance c m \<le> distance c x"
    by blast
  from closer_center[OF assms] obtain n where
    n: "n \<in> set (centers radius)" "distance c n < distance c (0, 0)"
    by blast
  from m(3) n have "distance c m < distance c (0, 0)" by fastforce
  with m(1,2) show ?thesis by (simp add: distance_sub)
qed

lemma wrap_returns:
  assumes "0 \<le> radius"
  shows "\<exists>c'. wrap radius c = Some (Inr c') \<and> distance c' (0, 0) \<le> radius"
proof (induction "nat (distance c (0, 0))" arbitrary: c rule: less_induct)
  case less
  show ?case
  proof (cases "distance c (0, 0) \<le> radius")
    case True
    then show ?thesis using wrap_inside by blast
  next
    case False
    then have out: "radius < distance c (0, 0)" by simp
    from nearest_center_decreases[OF assms out] obtain m where
      m: "min_by (centers radius) (distance c) = Some m"
         "distance (fst c - fst m, snd c - snd m) (0, 0) < distance c (0, 0)"
      by blast
    have "nat (distance (fst c - fst m, snd c - snd m) (0, 0)) < nat (distance c (0, 0))"
      using m(2) distance_nonneg[of "(fst c - fst m, snd c - snd m)" "(0, 0)"] by linarith
    from less[OF this] obtain c' where
      c': "wrap radius (fst c - fst m, snd c - snd m) = Some (Inr c')"
          "distance c' (0, 0) \<le> radius"
      by blast
    have "wrap radius c = wrap radius (fst c - fst m, snd c - snd m)"
      using False m(1) by (subst wrap.simps) simp
    with c' show ?thesis by simp
  qed
qed

lemma wrap_result_inside:
  assumes "wrap radius c = Some y"
  shows "\<exists>c'. y = Inr c' \<and> distance c' (0, 0) \<le> radius"
proof (rule wrap.raw_induct
    [where P = "\<lambda>radius c y. \<exists>c'. y = Inr c' \<and> distance c' (0, 0) \<le> radius", OF _ assms])
  fix w :: "int \<Rightarrow> axial \<Rightarrow> (error + axial) option" and radius c y
  assume IH: "\<And>r c y. w r c = Some y \<Longrightarrow> \<exists>c'. y = Inr c' \<and> distance c' (0, 0) \<le> r"
    and eq: "(if distance c (0, 0) \<le> radius then Some (Inr c)
              else case min_by (centers radius) (distance c) of
                     None \<Rightarrow> Some (Inl TypeError)
                   | Some m \<Rightarrow> w radius (fst c - fst m, snd c - snd m)) = Some y"
  have ne: "centers radius \<noteq> []" by (simp add: centers_eq)
  show "\<exists>c'. y = Inr c' \<and> distance c' (0, 0) \<le> radius"
  proof (cases "distance c (0, 0) \<le> radius")
    case True
    with eq have "y = Inr c" by simp
    with True show ?thesis by blast
  next
    case False
    from min_by_nonempty[OF ne, of "distance c"] obtain m where
      "min_by (centers radius) (distance c) = Some m" by blast
    with False eq have "w radius (fst c - fst m, snd c - snd m) = Some y" by simp
    from IH[OF this] show ?thesis .
  qed
qed

lemma wrap_negative_diverges:
  assumes "radius < 0"
  shows "wrap radius c = None"
proof (cases "wrap radius c")
  case None
  then show ?thesis .
next
  case (Some y)
  from wrap_result_inside[OF this] obtain c' where "distance c' (0, 0) \<le> radius" by blast
  with assms distance_nonneg[of c' "(0, 0)"] show ?thesis by linarith
qed


section \<open>Claims about the coordinate conversions and \<open>wrap\<close>\<close>

text \<open>
  C9.  The axial and offset (odd-q) conversions are mutually inverse for all integer
  pairs, and on the worked example \<open>axial_to_odd_q (2, -1) = (2, 0)\<close> with
  \<open>odd_q_to_axial (2, 0) = (2, -1)\<close>.
\<close>

theorem offset_axial_round_trip:
  "odd_q_to_axial (axial_to_odd_q (q, r)) = (q, r) \<and>
   axial_to_odd_q (odd_q_to_axial (q, r)) = (q, r) \<and>
   axial_to_odd_q (2, -1) = (2, 0) \<and>
   odd_q_to_axial (2, 0) = (2, -1)"
  by (simp add: shr1_def)

text \<open>
  C1.  For every axial coordinate \<open>c\<close> and every radius \<open>\<ge> 0\<close>, the call
  \<open>wrap(radius)(c)\<close> returns, and its result lies inside the region: its distance to the
  origin is at most \<open>radius\<close>.
\<close>

theorem wrap_into_region:
  assumes "0 \<le> radius"
  shows "\<exists>c'. wrap radius c = Some (Inr c') \<and> distance c' (0, 0) \<le> radius"
  using assms by (rule wrap_returns)

theorem wrap_into_region_witness:
  "(0::int) \<le> 2 \<and> (\<exists>c'. wrap 2 (30, -17) = Some (Inr c') \<and> distance c' (0, 0) \<le> 2)"
  using wrap_into_region [of 2 "(30, -17)"] by simp

text \<open>
  C5.  For every radius \<open>\<ge> 0\<close> and every axial coordinate \<open>c\<close> outside the region,
  \<open>min_by\<close> selects one of the six region centres and subtracting it from \<open>c\<close> strictly
  decreases the distance to the origin; hence the recursion of \<open>wrap\<close> ends, for every
  coordinate, with a returned value.
\<close>

theorem wrap_fold_decreases:
  assumes "0 \<le> radius"
  shows "(radius < distance c (0, 0) \<longrightarrow>
           (\<exists>m. min_by (centers radius) (distance c) = Some m \<and> m \<in> set (centers radius) \<and>
                distance (fst c - fst m, snd c - snd m) (0, 0) < distance c (0, 0))) \<and>
         (\<exists>c'. wrap radius c = Some (Inr c'))"
  using nearest_center_decreases [OF assms] wrap_returns [OF assms, of c] by blast

theorem wrap_fold_decreases_witness:
  "(0::int) \<le> 1 \<and> 1 < distance (2, 0) (0, 0) \<and>
   (\<exists>m. min_by (centers 1) (distance (2, 0)) = Some m \<and> m \<in> set (centers 1) \<and>
        distance (fst (2, 0) - fst m, snd (2, 0) - snd m) (0, 0) < distance (2, 0) (0, 0)) \<and>
   (\<exists>c'. wrap 1 (2, 0) = Some (Inr c'))"
  using wrap_fold_decreases [of 1 "(2, 0)"] by (simp add: distance.simps)

text \<open>
  C8.  For every radius \<open>\<ge> 0\<close>, \<open>wrap\<close> is idempotent on its own output, and it is the
  identity on every coordinate of the region.
\<close>

theorem wrap_idempotent:
  assumes "0 \<le> radius"
  shows "(\<exists>c'. wrap radius c = Some (Inr c') \<and> wrap radius c' = Some (Inr c')) \<and>
         (distance c (0, 0) \<le> radius \<longrightarrow> wrap radius c = Some (Inr c))"
  using wrap_returns [OF assms, of c] wrap_inside by blast

theorem wrap_idempotent_witness:
  "(0::int) \<le> 2 \<and>
   (\<exists>c'. wrap 2 (3, 0) = Some (Inr c') \<and> wrap 2 c' = Some (Inr c')) \<and>
   distance (1, -2) (0, 0) \<le> 2 \<and> wrap 2 (1, -2) = Some (Inr (1, -2))"
  using wrap_idempotent [of 2 "(3, 0)"] wrap_idempotent [of 2 "(1, -2)"]
  by (simp add: distance.simps)

text \<open>
  C6 (as amended).  \<open>wrap\<close> has no check of its radius.  With a negative radius the test
  \<open>distance c origin \<le> radius\<close> fails for every coordinate, so the call is not rejected:
  it recurses and never returns, neither a coordinate nor an error.
\<close>

theorem wrap_negative_radius_not_rejected:
  assumes "radius < 0"
  shows "wrap radius c = None"
  using assms by (rule wrap_negative_diverges)

theorem wrap_negative_radius_not_rejected_witness:
  "(-2::int) < 0 \<and> wrap (-2) (3, 1) = None"
  using wrap_negative_radius_not_rejected [of "-2" "(3, 1)"] by simp

text \<open>
  C6, counterexample.  The claim says that a call with \<open>radius < 0\<close> fails with a
  validation error before any recursion.  At \<open>radius = -1\<close> and the origin the call does
  not end with an error: it does not return at all.
\<close>

theorem wrap_validation_counterexample:
  "wrap (-1) (0, 0) \<noteq> Some (Inl TypeError) \<and> wrap (-1) (0, 0) = None"
  using wrap_negative_diverges [of "-1" "(0, 0)"] by simp

section \<open>The shuffle returns a permutation\<close>







section \<open>Reads and writes of the occupancy map\<close>

lemma cells_read_no_row:
  "cells r = None \<Longrightarrow> cells_read cells r q = (False, cells(r \<mapsto> [q \<mapsto> False]))"
  by (simp add: cells_read_def defaultdict_get_def)

lemma cells_read_no_entry:
  "cells r = Some row \<Longrightarrow> row q = None \<Longrightarrow>
   cells_read cells r q = (False, cells(r \<mapsto> row(q \<mapsto> False)))"
  by (simp add: cells_read_def defaultdict_get_def)

lemma cells_read_entry:
  "cells r = Some row \<Longrightarrow> row q = Some b \<Longrightarrow> cells_read cells r q = (b, cells)"
  by (simp add: cells_read_def defaultdict_get_def fun_upd_idem)

lemma lookup_upd:
  "lookup (cells(r \<mapsto> row)) c = (if snd c = r then row (fst c) else lookup cells c)"
  by (simp add: lookup_def)

lemma lookup_cells_read:
  assumes "cells_read cells r q = (v, cells1)"
  shows "v = (lookup cells (q, r) = Some True)"
    and "lookup cells1 c = (if c = (q, r) then Some v else lookup cells c)"
proof -
  consider (no_row) "cells r = None"
    | (no_entry) row where "cells r = Some row" "row q = None"
    | (entry) row b where "cells r = Some row" "row q = Some b"
    by (cases "cells r") auto
  then have "v = (lookup cells (q, r) = Some True) \<and>
             lookup cells1 c = (if c = (q, r) then Some v else lookup cells c)"
  proof cases
    case no_row
    with assms have "v = False" "cells1 = cells(r \<mapsto> [q \<mapsto> False])"
      by (simp_all add: cells_read_no_row)
    with no_row show ?thesis
      by (cases c) (simp add: lookup_upd, simp add: lookup_def)
  next
    case no_entry
    with assms have "v = False" "cells1 = cells(r \<mapsto> row(q \<mapsto> False))"
      by (simp_all add: cells_read_no_entry)
    with no_entry show ?thesis
      by (cases c) (simp add: lookup_upd, simp add: lookup_def)
  next
    case entry
    with assms have "v = b" "cells1 = cells"
      by (simp_all add: cells_read_entry)
    with entry show ?thesis
      by (cases c) (auto simp: lookup_def)
  qed
  then show "v = (lookup cells (q, r) = Some True)"
    and "lookup cells1 c = (if c = (q, r) then Some v else lookup cells c)"
    by simp_all
qed


lemma only_defaults_added_refl [simp]: "only_defaults_added cells cells"
  by (simp add: only_defaults_added_def)

lemma only_defaults_added_trans:
  "only_defaults_added a b \<Longrightarrow> only_defaults_added b c \<Longrightarrow> only_defaults_added a c"
  unfolding only_defaults_added_def by metis

lemma only_defaults_added_open:
  "only_defaults_added cells cells1 \<Longrightarrow> is_open cells1 c = is_open cells c"
  unfolding only_defaults_added_def is_open_def by (metis option.distinct(1) option.inject)

lemma cells_read_only_defaults:
  assumes "cells_read cells r q = (v, cells1)"
  shows "only_defaults_added cells cells1"
  using lookup_cells_read[OF assms]
  by (cases "lookup cells (q, r)") (auto simp: only_defaults_added_def)

lemma cells_read_false:
  assumes "cells_read cells r q = (False, cells1)"
  shows "lookup cells1 (q, r) = Some False" "\<not> is_open cells (q, r)"
  using lookup_cells_read[OF assms] by (auto simp: is_open_def)

lemma cells_read_true:
  assumes "cells_read cells r q = (True, cells1)"
  shows "cells1 = cells" "is_open cells (q, r)"
proof -
  consider (no_row) "cells r = None"
    | (no_entry) row where "cells r = Some row" "row q = None"
    | (entry) row b where "cells r = Some row" "row q = Some b"
    by (cases "cells r") auto
  then have "cells1 = cells \<and> is_open cells (q, r)"
  proof cases
    case no_row
    with assms show ?thesis by (simp add: cells_read_no_row)
  next
    case no_entry
    with assms show ?thesis by (simp add: cells_read_no_entry)
  next
    case entry
    with assms show ?thesis by (simp add: cells_read_entry is_open_def lookup_def)
  qed
  then show "cells1 = cells" "is_open cells (q, r)" by simp_all
qed

section \<open>The scan of the shuffled directions\<close>

lemma scan_result:
  assumes "scan radius cells a ds = Some (Inr (res, cells1))"
  shows "only_defaults_added cells cells1 \<and>
         (case res of
            Some c \<Rightarrow> (\<exists>d\<in>set ds. wrap radius (add a d) = Some (Inr c)) \<and>
                      \<not> is_open cells c \<and> lookup cells1 c = Some False
          | None \<Rightarrow> cells1 = cells \<and>
                    (\<forall>d\<in>set ds. \<exists>c. wrap radius (add a d) = Some (Inr c) \<and> is_open cells c))"
  using assms
proof (induction ds arbitrary: cells)
  case Nil
  then show ?case by (simp add: only_defaults_added_refl)
next
  case (Cons d ds)
  from Cons.prems obtain c where w: "wrap radius (add a d) = Some (Inr c)"
    by (auto split: option.splits sum.splits)
  obtain v cells2 where rd: "cells_read cells (snd c) (fst c) = (v, cells2)"
    by (cases "cells_read cells (snd c) (fst c)")
  show ?case
  proof (cases v)
    case False
    with Cons.prems w rd have "res = Some c" "cells1 = cells2" by simp_all
    moreover from rd False have "lookup cells2 c = Some False" "\<not> is_open cells c"
      using cells_read_false[of cells "snd c" "fst c" cells2] by simp_all
    moreover have "only_defaults_added cells cells2" using rd by (rule cells_read_only_defaults)
    ultimately show ?thesis using w by auto
  next
    case True
    with rd have same: "cells2 = cells" and op: "is_open cells c"
      using cells_read_true[of cells "snd c" "fst c" cells2] by simp_all
    from Cons.prems w rd True same have "scan radius cells a ds = Some (Inr (res, cells1))"
      by simp
    from Cons.IH[OF this] have ih: "only_defaults_added cells cells1 \<and>
         (case res of
            Some c \<Rightarrow> (\<exists>d\<in>set ds. wrap radius (add a d) = Some (Inr c)) \<and>
                      \<not> is_open cells c \<and> lookup cells1 c = Some False
          | None \<Rightarrow> cells1 = cells \<and>
                    (\<forall>d\<in>set ds. \<exists>c. wrap radius (add a d) = Some (Inr c) \<and> is_open cells c))" .
    show ?thesis
    proof (cases res)
      case None
      with ih w op show ?thesis by (simp del: split_paired_Ex add: only_defaults_added_refl)
    next
      case (Some c')
      with ih show ?thesis by (simp del: split_paired_Ex split_paired_All)
    qed
  qed
qed


section \<open>One pass of the loop, one pull, and the consumer loop\<close>

declare pull.simps [simp del]
declare take_loop.simps [simp del]

lemma iteration_result:
  assumes "iteration radius rnd g cells = Some (Inr (res, g1, cells1))"
  shows "only_defaults_added cells cells1 \<and> draws g1 = draws g + 5 \<and>
         (case res of
            Some c \<Rightarrow> at_cell g1 = c \<and> stack g1 = stack g @ [c] \<and>
                      (\<exists>d\<in>set (shuffled rnd (draws g) directions).
                          wrap radius (add (at_cell g) d) = Some (Inr c)) \<and>
                      \<not> is_open cells c \<and> lookup cells1 c = Some False
          | None \<Rightarrow> at_cell g1 = last (stack g) \<and> stack g1 = butlast (stack g) \<and>
                    cells1 = cells \<and>
                    (\<forall>d\<in>set (shuffled rnd (draws g) directions).
                        \<exists>c. wrap radius (add (at_cell g) d) = Some (Inr c) \<and> is_open cells c))"
proof -
  from assms obtain cells2 where
    sc: "scan radius cells (at_cell g) (shuffled rnd (draws g) directions) = Some (Inr (res, cells2))"
    by (auto simp: iteration_def split: option.splits sum.splits prod.splits)
  from assms sc have g1: "cells1 = cells2"
    "g1 = (case res of
             Some c \<Rightarrow> g\<lparr>at_cell := c, stack := stack g @ [c], draws := draws g + 5\<rparr>
           | None \<Rightarrow> g\<lparr>at_cell := last (stack g), stack := butlast (stack g),
                         draws := draws g + 5\<rparr>)"
    by (auto simp: iteration_def split: option.splits)
  from scan_result[OF sc] g1 show ?thesis
    by (cases res) simp_all
qed



text \<open>What one pull does, for any state and any map.\<close>

lemma pull_result:
  assumes "pull radius rnd g cells = Some (Inr (res, g1, cells1))"
  shows "only_defaults_added cells cells1 \<and>
         (case res of
            None \<Rightarrow> stack g1 = [] \<and> cells1 = cells
          | Some c \<Rightarrow> at_cell g1 = c \<and> \<not> is_open cells c \<and> lookup cells1 c = Some False \<and>
                      (\<exists>st a k. stack g1 = st @ [c] \<and> set st \<subseteq> set (stack g) \<and>
                          (a = at_cell g \<or> a \<in> set (stack g)) \<and>
                          (\<exists>d\<in>set (shuffled rnd k directions).
                               wrap radius (add a d) = Some (Inr c))))"
  using assms
proof (induction "length (stack g)" arbitrary: g cells rule: less_induct)
  case less
  show ?case
  proof (cases "0 < length (stack g)")
    case False
    with less.prems have "res = None" "g1 = g" "cells1 = cells"
      by (simp_all add: pull.simps)
    with False show ?thesis by (simp add: only_defaults_added_refl)
  next
    case True
    from less.prems True obtain r2 g2 cells2 where
      it: "iteration radius rnd g cells = Some (Inr (r2, g2, cells2))"
      by (subst (asm) pull.simps) (auto split: option.splits sum.splits)
    note ir = iteration_result[OF it]
    show ?thesis
    proof (cases r2)
      case (Some c)
      with less.prems True it have "res = Some c" "g1 = g2" "cells1 = cells2"
        by (simp_all add: pull.simps)
      with ir Some show ?thesis
        by (simp del: split_paired_Ex) blast
    next
      case None
      with less.prems True it have p: "pull radius rnd g2 cells2 = Some (Inr (res, g1, cells1))"
        by (simp add: pull.simps)
      from None ir True have g2: "stack g2 = butlast (stack g)" "at_cell g2 = last (stack g)"
        "cells2 = cells" by simp_all
      from g2 True have "length (stack g2) < length (stack g)" by simp
      from less.hyps[OF this p] have ih:
        "only_defaults_added cells2 cells1 \<and>
         (case res of
            None \<Rightarrow> stack g1 = [] \<and> cells1 = cells2
          | Some c \<Rightarrow> at_cell g1 = c \<and> \<not> is_open cells2 c \<and> lookup cells1 c = Some False \<and>
                      (\<exists>st a k. stack g1 = st @ [c] \<and> set st \<subseteq> set (stack g2) \<and>
                          (a = at_cell g2 \<or> a \<in> set (stack g2)) \<and>
                          (\<exists>d\<in>set (shuffled rnd k directions).
                               wrap radius (add a d) = Some (Inr c))))" .
      have sub: "set (stack g2) \<subseteq> set (stack g)" "at_cell g2 \<in> set (stack g)"
        using g2 True by (auto dest: in_set_butlastD)
      show ?thesis
      proof (cases res)
        case None
        with ih g2 show ?thesis by simp
      next
        case (Some c)
        with ih obtain st a k where
          h: "at_cell g1 = c" "\<not> is_open cells2 c" "lookup cells1 c = Some False"
             "stack g1 = st @ [c]" "set st \<subseteq> set (stack g2)"
             "a = at_cell g2 \<or> a \<in> set (stack g2)"
             "\<exists>d\<in>set (shuffled rnd k directions). wrap radius (add a d) = Some (Inr c)"
          by (simp del: split_paired_Ex) blast
        from h(5,6) sub have "set st \<subseteq> set (stack g)" "a \<in> set (stack g)" by auto
        with h ih g2 Some show ?thesis
          by (simp del: split_paired_Ex) blast
      qed
    qed
  qed
qed

section \<open>Connectivity of the open cells\<close>









section \<open>Evaluation of the walk on concrete inputs\<close>


lemma shuffled_zero_random: "shuffled zero_random k directions = directions"
  by (simp add: shuffled_def range_js_def upt_conv_Cons randint_def random_js_def lerp_def
        to_int32_def swap_def directions_def zero_random_def)

lemmas walk_eval = generateWorld_def steps_def area_def start_def iteration_def
  shuffled_zero_random [unfolded directions_def] directions_def wrap.simps centers_eq min_by_def max_by_def argmax_def
  distance.simps cells_read_def cells_write_def defaultdict_get_def pull.simps take_loop.simps


lemma first_pull_1_zero_random:
  "pull 1 zero_random (start (0, 0)) Map.empty =
     Some (Inr (Some (0, 1), \<lparr>at_cell = (0, 1), stack = [(0, 0), (0, 1)], draws = 5\<rparr>,
                [1 \<mapsto> [0 \<mapsto> False]]))"
  by (simp add: walk_eval)

section \<open>Claims about the walk and the world assembly\<close>



text \<open>
  C4 (as amended).  A pull of the generator never marks a cell open and never changes or
  removes an entry of the occupancy map.  It does write to the map: the read
  \<open>cells[r][q]\<close> of an absent key stores the default \<open>false\<close> under that key.  So after a
  pull every entry is the entry from before, or a \<open>false\<close> under a key that was absent, and
  the open cells are the same.
\<close>

theorem generator_only_adds_defaults:
  assumes "pull radius rnd g cells = Some (Inr (res, g1, cells1))"
  shows "(\<forall>c. lookup cells1 c = lookup cells c \<or>
              (lookup cells c = None \<and> lookup cells1 c = Some False)) \<and>
         (\<forall>c. is_open cells1 c = is_open cells c)"
proof -
  from pull_result[OF assms] have "only_defaults_added cells cells1" by simp
  then show ?thesis
    using only_defaults_added_open[of cells cells1] unfolding only_defaults_added_def by blast
qed

theorem generator_only_adds_defaults_witness:
  "pull 1 zero_random (start (0, 0)) Map.empty =
     Some (Inr (Some (0, 1), \<lparr>at_cell = (0, 1), stack = [(0, 0), (0, 1)], draws = 5\<rparr>,
                [1 \<mapsto> [0 \<mapsto> False]])) \<and>
   (\<forall>c. lookup [1 \<mapsto> [0 \<mapsto> False]] c = lookup Map.empty c \<or>
        (lookup Map.empty c = None \<and> lookup [1 \<mapsto> [0 \<mapsto> False]] c = Some False)) \<and>
   (\<forall>c. is_open [1 \<mapsto> [0 \<mapsto> False]] c = is_open Map.empty c)"
  using generator_only_adds_defaults [OF first_pull_1_zero_random] first_pull_1_zero_random
  by blast

text \<open>
  C4, counterexample.  The claim says that the generator never mutates the map, which
  then holds exactly the entries written by the consumer.  The first pull at radius 1 on
  the empty map, before the consumer has written anything, returns a map that has an
  entry for the cell \<open>(0, 1)\<close>.
\<close>

theorem generator_mutates_map_counterexample:
  "pull 1 zero_random (start (0, 0)) Map.empty =
     Some (Inr (Some (0, 1), \<lparr>at_cell = (0, 1), stack = [(0, 0), (0, 1)], draws = 5\<rparr>,
                [1 \<mapsto> [0 \<mapsto> False]])) \<and>
   lookup Map.empty (0, 1) = None \<and>
   lookup [1 \<mapsto> [0 \<mapsto> False]] (0, 1) = Some False"
  using first_pull_1_zero_random by (simp add: lookup_def)

section \<open>The step budget\<close>













section \<open>Backtracking\<close>

text \<open>
  Whenever the current cell is the top of the stack, as it is at the start and after
  every yield, a pass that finds no unopened neighbour pops the current cell itself: the
  next pass searches from the same cell.
\<close>

lemma failed_pass_keeps_cell:
  assumes "iteration radius rnd g cells = Some (Inr (None, g1, cells1))"
    and "at_cell g = last (stack g)"
  shows "at_cell g1 = at_cell g \<and> stack g1 = butlast (stack g) \<and> cells1 = cells"
  using iteration_result[OF assms(1)] assms(2) by simp

lemma pull_keeps_top:
  assumes "pull radius rnd g cells = Some (Inr (Some c, g1, cells1))"
  shows "at_cell g1 = last (stack g1)"
  using pull_result[OF assms] by auto

lemma first_pull_enclosed:
  "pull 2 zero_random (start (0, 0)) enclosed_cells =
     Some (Inr (Some (1, 0), \<lparr>at_cell = (1, 0), stack = [(0, 0), (1, 0)], draws = 5\<rparr>,
                [1 \<mapsto> [0 \<mapsto> True, -1 \<mapsto> True, 1 \<mapsto> True],
                 -1 \<mapsto> [0 \<mapsto> True, 1 \<mapsto> True, 2 \<mapsto> True],
                 0 \<mapsto> [2 \<mapsto> True, 0 \<mapsto> True, 1 \<mapsto> False]]))"
  by (simp add: walk_eval enclosed_cells_def)

lemma mark_enclosed:
  "cells_write [1 \<mapsto> [0 \<mapsto> True, -1 \<mapsto> True, 1 \<mapsto> True],
                -1 \<mapsto> [0 \<mapsto> True, 1 \<mapsto> True, 2 \<mapsto> True],
                0 \<mapsto> [2 \<mapsto> True, 0 \<mapsto> True, 1 \<mapsto> False]] 0 1 = enclosed_cells_marked"
  by (simp add: cells_write_def defaultdict_get_def enclosed_cells_marked_def)

lemma failed_pass_enclosed:
  "iteration 2 zero_random \<lparr>at_cell = (1, 0), stack = [(0, 0), (1, 0)], draws = 5\<rparr>
     enclosed_cells_marked =
   Some (Inr (None, \<lparr>at_cell = (1, 0), stack = [(0, 0)], draws = 10\<rparr>, enclosed_cells_marked))"
  by (simp add: walk_eval enclosed_cells_marked_def)

lemma second_pull_enclosed:
  "pull 2 zero_random \<lparr>at_cell = (1, 0), stack = [(0, 0), (1, 0)], draws = 5\<rparr>
     enclosed_cells_marked =
   Some (Inr (None, \<lparr>at_cell = (0, 0), stack = [], draws = 15\<rparr>, enclosed_cells_marked))"
  by (simp add: walk_eval enclosed_cells_marked_def)

lemma left_neighbour_enclosed:
  "wrap 2 (add (0, 0) (-1, 0)) = Some (Inr (-1, 0)) \<and> (-1, 0) \<in> set directions \<and>
   \<not> is_open enclosed_cells_marked (-1, 0)"
  by (simp add: wrap.simps distance.simps directions_def is_open_def lookup_def
        enclosed_cells_marked_def)

text \<open>
  C10, the code at a failing input.  The walk starts at the origin with radius 2 on
  \<open>enclosed_cells\<close>.  The first pull emits \<open>(1, 0)\<close> and the consumer marks it.  In the next
  pull no direction gives an unopened neighbour of \<open>(1, 0)\<close>; the pass pops the stack, and
  the current cell after it is \<open>(1, 0)\<close> again, not the previous cell \<open>(0, 0)\<close>.  The pass
  after that pops \<open>(0, 0)\<close>, the stack is empty and the sequence ends: the walk never
  searches from \<open>(0, 0)\<close>, whose neighbour \<open>(-1, 0)\<close> is still unopened.
\<close>

theorem backtrack_retries_current_cell:
  "pull 2 zero_random (start (0, 0)) enclosed_cells =
     Some (Inr (Some (1, 0), \<lparr>at_cell = (1, 0), stack = [(0, 0), (1, 0)], draws = 5\<rparr>,
                [1 \<mapsto> [0 \<mapsto> True, -1 \<mapsto> True, 1 \<mapsto> True],
                 -1 \<mapsto> [0 \<mapsto> True, 1 \<mapsto> True, 2 \<mapsto> True],
                 0 \<mapsto> [2 \<mapsto> True, 0 \<mapsto> True, 1 \<mapsto> False]])) \<and>
   cells_write [1 \<mapsto> [0 \<mapsto> True, -1 \<mapsto> True, 1 \<mapsto> True],
                -1 \<mapsto> [0 \<mapsto> True, 1 \<mapsto> True, 2 \<mapsto> True],
                0 \<mapsto> [2 \<mapsto> True, 0 \<mapsto> True, 1 \<mapsto> False]] 0 1 = enclosed_cells_marked \<and>
   iteration 2 zero_random \<lparr>at_cell = (1, 0), stack = [(0, 0), (1, 0)], draws = 5\<rparr>
     enclosed_cells_marked =
     Some (Inr (None, \<lparr>at_cell = (1, 0), stack = [(0, 0)], draws = 10\<rparr>, enclosed_cells_marked)) \<and>
   pull 2 zero_random \<lparr>at_cell = (1, 0), stack = [(0, 0), (1, 0)], draws = 5\<rparr>
     enclosed_cells_marked =
     Some (Inr (None, \<lparr>at_cell = (0, 0), stack = [], draws = 15\<rparr>, enclosed_cells_marked)) \<and>
   wrap 2 (add (0, 0) (-1, 0)) = Some (Inr (-1, 0)) \<and> (-1, 0) \<in> set directions \<and>
   \<not> is_open enclosed_cells_marked (-1, 0)"
  using first_pull_enclosed mark_enclosed failed_pass_enclosed second_pull_enclosed
    left_neighbour_enclosed
  by blast

end
